theory Spec2Isabelle
  imports Complex_Main
begin

section \<open>JavaScript numbers\<close>

text \<open>
  The service (\<^verbatim>\<open>src/services/dfaService.ts\<close>) computes on JavaScript numbers. A number is
  modelled as a finite value, one of the two infinities, or NaN. A finite value is an exact
  real: rounding, overflow of a finite result and the sign of a zero are left out of the
  model (a zero divisor is taken as \<open>+0\<close>). What the model keeps is what the control flow
  of the service depends on: every comparison with NaN is false, a division by zero
  returns NaN or an infinity instead of failing, and \<open>0\<close> and NaN are falsy. Rounding to
  binary64 is added in a second model of the fluctuation estimator, further down, for the
  one property that exact arithmetic decides differently.
\<close>

datatype number = Fin real | PInf | NInf | NaN

fun is_neg :: "number \<Rightarrow> bool" where
  "is_neg (Fin a) = (a < 0)"
| "is_neg NInf = True"
| "is_neg PInf = False"
| "is_neg NaN = False"

fun num_neg :: "number \<Rightarrow> number" where
  "num_neg (Fin a) = Fin (- a)"
| "num_neg PInf = NInf"
| "num_neg NInf = PInf"
| "num_neg NaN = NaN"

fun num_add :: "number \<Rightarrow> number \<Rightarrow> number" where
  "num_add (Fin a) (Fin b) = Fin (a + b)"
| "num_add NaN _ = NaN"
| "num_add _ NaN = NaN"
| "num_add PInf NInf = NaN"
| "num_add NInf PInf = NaN"
| "num_add PInf _ = PInf"
| "num_add _ PInf = PInf"
| "num_add NInf _ = NInf"
| "num_add _ NInf = NInf"

definition num_sub :: "number \<Rightarrow> number \<Rightarrow> number" where
  "num_sub a b = num_add a (num_neg b)"

fun num_mul :: "number \<Rightarrow> number \<Rightarrow> number" where
  "num_mul (Fin a) (Fin b) = Fin (a * b)"
| "num_mul NaN _ = NaN"
| "num_mul _ NaN = NaN"
| "num_mul x y =
     (if x = Fin 0 \<or> y = Fin 0 then NaN
      else if is_neg x = is_neg y then PInf else NInf)"

fun num_div :: "number \<Rightarrow> number \<Rightarrow> number" where
  "num_div (Fin a) (Fin b) =
     (if b = 0 then (if a = 0 then NaN else if 0 < a then PInf else NInf)
      else Fin (a / b))"
| "num_div NaN _ = NaN"
| "num_div _ NaN = NaN"
| "num_div (Fin a) _ = Fin 0"
| "num_div x (Fin b) = (if is_neg x = (b < 0) then PInf else NInf)"
| "num_div _ _ = NaN"

fun num_abs :: "number \<Rightarrow> number" where
  "num_abs (Fin a) = Fin \<bar>a\<bar>"
| "num_abs PInf = PInf"
| "num_abs NInf = PInf"
| "num_abs NaN = NaN"

fun num_sqrt :: "number \<Rightarrow> number" where
  "num_sqrt (Fin a) = (if a < 0 then NaN else Fin (sqrt a))"
| "num_sqrt PInf = PInf"
| "num_sqrt NInf = NaN"
| "num_sqrt NaN = NaN"

fun num_log10 :: "number \<Rightarrow> number" where
  "num_log10 (Fin a) = (if a < 0 then NaN else if a = 0 then NInf else Fin (log 10 a))"
| "num_log10 PInf = PInf"
| "num_log10 NInf = NaN"
| "num_log10 NaN = NaN"

fun num_lt :: "number \<Rightarrow> number \<Rightarrow> bool" where
  "num_lt (Fin a) (Fin b) = (a < b)"
| "num_lt NaN _ = False"
| "num_lt _ NaN = False"
| "num_lt NInf NInf = False"
| "num_lt NInf _ = True"
| "num_lt PInf _ = False"
| "num_lt _ PInf = True"
| "num_lt _ NInf = False"

definition num_gt :: "number \<Rightarrow> number \<Rightarrow> bool" where
  "num_gt a b = num_lt b a"

text \<open>Truthiness of a value that is a number or \<^verbatim>\<open>null\<close> (\<open>None\<close>).\<close>

fun truthy :: "number option \<Rightarrow> bool" where
  "truthy None = False"
| "truthy (Some (Fin a)) = (a \<noteq> 0)"
| "truthy (Some NaN) = False"
| "truthy (Some PInf) = True"
| "truthy (Some NInf) = True"

section \<open>The validator and corrector: \<^verbatim>\<open>preprocessRR\<close>\<close>

definition MIN_RR :: number where
  "MIN_RR = Fin 300"

definition MAX_RR :: number where
  "MAX_RR = Fin 1300"

text \<open>
  The validity decision of one loop iteration (steps 2 and 3 of the loop body): the value
  of the flag \<^verbatim>\<open>isValid\<close> when step 4 reads it, given the samples accepted so far.
\<close>

definition isValid :: "number list \<Rightarrow> number \<Rightarrow> bool" where
  "isValid filtered val =
     (let inRange = \<not> (num_lt val MIN_RR \<or> num_gt val MAX_RR) in
      if inRange \<and> 0 < length filtered then
        (let prev = last filtered;
             diff = num_abs (num_sub val prev);
             percentChange = num_div diff prev
         in \<not> num_gt percentChange (Fin (3 / 10)))
      else inRange)"

text \<open>
  Step 4 for a sample judged invalid: \<^verbatim>\<open>prev\<close> and \<^verbatim>\<open>next\<close> are a number or
  \<^verbatim>\<open>null\<close>, and the branches test their truthiness.
\<close>

definition interpolate :: "number list \<Rightarrow> number option \<Rightarrow> number option \<Rightarrow> number list" where
  "interpolate filtered prev next =
     (case (prev, next) of
        (Some p, Some n) \<Rightarrow>
          if truthy prev \<and> truthy next then filtered @ [num_div (num_add p n) (Fin 2)]
          else if truthy prev then filtered @ [p]
          else filtered
      | (Some p, None) \<Rightarrow> if truthy prev then filtered @ [p] else filtered
      | (None, _) \<Rightarrow> filtered)"

text \<open>The body of the loop at index \<open>i\<close>, from the samples accepted so far to the next ones.\<close>

definition preprocess_step :: "number list \<Rightarrow> nat \<Rightarrow> number list \<Rightarrow> number list" where
  "preprocess_step rrIntervals i filtered =
     (let val = rrIntervals ! i in
      if isValid filtered val then filtered @ [val]
      else
        (let prev = (if 0 < length filtered then Some (last filtered) else None);
             next = (if i + 1 < length rrIntervals then Some (rrIntervals ! (i + 1)) else None)
         in interpolate filtered prev next))"

text \<open>The array \<^verbatim>\<open>filtered\<close> when the loop reaches index \<open>i\<close>.\<close>

definition filtered_at :: "number list \<Rightarrow> nat \<Rightarrow> number list" where
  "filtered_at rrIntervals i = fold (preprocess_step rrIntervals) [0..<i] []"

text \<open>
  The argument is an array: the guard for a missing argument (\<^verbatim>\<open>!rrIntervals\<close>) has no
  counterpart here.
\<close>

definition preprocessRR :: "number list \<Rightarrow> number list" where
  "preprocessRR rrIntervals =
     (if length rrIntervals < 3 then rrIntervals
      else filtered_at rrIntervals (length rrIntervals))"

section \<open>Linear regression and the fluctuation estimator\<close>

text \<open>
  An array read \<^verbatim>\<open>y[i]\<close> past the end gives \<^verbatim>\<open>undefined\<close>, which the arithmetic
  that follows turns into NaN.
\<close>

definition nth_num :: "number list \<Rightarrow> nat \<Rightarrow> number" where
  "nth_num xs i = (if i < length xs then xs ! i else NaN)"

record reg_sums =
  sumX :: number
  sumY :: number
  sumXY :: number
  sumXX :: number

record line =
  slope :: number
  intercept :: number

definition regression_step :: "number list \<Rightarrow> number list \<Rightarrow> nat \<Rightarrow> reg_sums \<Rightarrow> reg_sums" where
  "regression_step x y i s =
     \<lparr> sumX = num_add (sumX s) (nth_num x i),
       sumY = num_add (sumY s) (nth_num y i),
       sumXY = num_add (sumXY s) (num_mul (nth_num x i) (nth_num y i)),
       sumXX = num_add (sumXX s) (num_mul (nth_num x i) (nth_num x i)) \<rparr>"

definition linearRegression :: "number list \<Rightarrow> number list \<Rightarrow> line" where
  "linearRegression x y =
     (let n = Fin (real (length x));
          s = fold (regression_step x y) [0..<length x]
                \<lparr> sumX = Fin 0, sumY = Fin 0, sumXY = Fin 0, sumXX = Fin 0 \<rparr>;
          slope = num_div (num_sub (num_mul n (sumXY s)) (num_mul (sumX s) (sumY s)))
                          (num_sub (num_mul n (sumXX s)) (num_mul (sumX s) (sumX s)));
          intercept = num_div (num_sub (sumY s) (num_mul slope (sumX s))) n
      in \<lparr> slope = slope, intercept = intercept \<rparr>)"

text \<open>The inner loop of \<^verbatim>\<open>calculateF_n\<close>: one residual added to the running total.\<close>

definition residual_step :: "line \<Rightarrow> number list \<Rightarrow> nat \<Rightarrow> number \<Rightarrow> number" where
  "residual_step l segmentY k totalResidualSq =
     (let trend = num_add (num_mul (slope l) (Fin (real k))) (intercept l);
          residual = num_sub (nth_num segmentY k) trend
      in num_add totalResidualSq (num_mul residual residual))"

text \<open>The body of the outer loop of \<^verbatim>\<open>calculateF_n\<close>, for box \<open>i\<close>.\<close>

definition box_step :: "number list \<Rightarrow> nat \<Rightarrow> nat \<Rightarrow> number \<Rightarrow> number" where
  "box_step integratedSeries boxSize i totalResidualSq =
     (let start = i * boxSize;
          segmentY = take boxSize (drop start integratedSeries);
          segmentX = map (\<lambda>k. Fin (real k)) [0..<boxSize];
          l = linearRegression segmentX segmentY
      in fold (residual_step l segmentY) [0..<boxSize] totalResidualSq)"

text \<open>
  The box size is a natural number: the function is private to the module and its only
  caller passes the literals 4 to 16. With a box size of 0 and a non-empty series the
  number of boxes is \<^verbatim>\<open>Infinity\<close> and the outer loop does not end (\<open>None\<close>); with
  an empty series it is NaN, the loop is skipped and the result is NaN.
\<close>

definition calculateF_n :: "number list \<Rightarrow> nat \<Rightarrow> number option" where
  "calculateF_n integratedSeries boxSize =
     (if boxSize = 0 then (if integratedSeries = [] then Some NaN else None)
      else
        (let N = length integratedSeries;
             numBoxes = N div boxSize;
             totalResidualSq = fold (box_step integratedSeries boxSize) [0..<numBoxes] (Fin 0)
         in Some (num_sqrt (num_div totalResidualSq (Fin (real (numBoxes * boxSize)))))))"

section \<open>Binary64 arithmetic\<close>
















section \<open>The scaling exponent: \<^verbatim>\<open>calculateDfaAlpha1\<close>\<close>

text \<open>Step 2 of \<^verbatim>\<open>calculateDfaAlpha1\<close>: the mean, then the running sum of deviations.\<close>

definition integrate_step :: "number \<Rightarrow> number \<Rightarrow> number \<times> number list \<Rightarrow> number \<times> number list" where
  "integrate_step meanRR rr st =
     (let currentSum = num_add (fst st) (num_sub rr meanRR)
      in (currentSum, snd st @ [currentSum]))"

definition integratedSeries :: "number list \<Rightarrow> number list" where
  "integratedSeries cleanRR =
     (let meanRR = num_div (foldl num_add (Fin 0) cleanRR) (Fin (real (length cleanRR)))
      in snd (fold (integrate_step meanRR) cleanRR (Fin 0, [])))"

definition boxSizes :: "nat list" where
  "boxSizes = [4, 5, 6, 7, 8, 9, 10, 11, 12, 13, 14, 15, 16]"

text \<open>Step 3: the arrays \<^verbatim>\<open>logN\<close> and \<^verbatim>\<open>logFn\<close> after the loop over the box sizes.\<close>

fun log_pairs ::
  "number list \<Rightarrow> nat list \<Rightarrow> number list \<times> number list \<Rightarrow> (number list \<times> number list) option" where
  "log_pairs series [] acc = Some acc"
| "log_pairs series (n # ns) acc =
     (case calculateF_n series n of
        None \<Rightarrow> None
      | Some Fn \<Rightarrow>
          if num_gt Fn (Fin 0)
          then log_pairs series ns
                 (fst acc @ [num_log10 (Fin (real n))], snd acc @ [num_log10 Fn])
          else log_pairs series ns acc)"

text \<open>The result of \<^verbatim>\<open>calculateDfaAlpha1\<close> is \<^verbatim>\<open>null\<close> or a number.\<close>

datatype alpha = Null | Alpha number

definition calculateDfaAlpha1 :: "number list \<Rightarrow> alpha option" where
  "calculateDfaAlpha1 rrIntervals =
     (let cleanRR = preprocessRR rrIntervals in
      if length cleanRR < 50 then Some Null
      else
        (let series = integratedSeries cleanRR in
         case log_pairs series boxSizes ([], []) of
           None \<Rightarrow> None
         | Some (logN, logFn) \<Rightarrow> Some (Alpha (slope (linearRegression logN logFn)))))"

section \<open>The notions of the specification\<close>

text \<open>
  A sample \<open>v\<close> is acceptable after the cleaned values \<open>fs\<close> emitted so far (accepted
  samples and replacement values alike): it lies within \<open>[300, 1300]\<close> and, when \<open>fs\<close> is
  not empty, its last element \<open>p\<close> is not zero and the quotient \<open>\<bar>v - p\<bar> / p\<close> is at most
  \<open>0.30\<close>.
\<close>

definition acceptable :: "real list \<Rightarrow> real \<Rightarrow> bool" where
  "acceptable fs v =
     (300 \<le> v \<and> v \<le> 1300 \<and>
      (fs \<noteq> [] \<longrightarrow> last fs \<noteq> 0 \<and> \<bar>v - last fs\<bar> / last fs \<le> 3 / 10))"


text \<open>Box \<open>b\<close> of size \<open>n\<close>, and the sum of squared residuals of a box from a line.\<close>

definition box :: "real list \<Rightarrow> nat \<Rightarrow> nat \<Rightarrow> real list" where
  "box ys n b = take n (drop (b * n) ys)"

definition ssr :: "real list \<Rightarrow> real \<Rightarrow> real \<Rightarrow> real" where
  "ssr seg a c = (\<Sum>k<length seg. (seg ! k - (a * real k + c))\<^sup>2)"

text \<open>A least-squares line of a box against the local indices: no line has a smaller sum.\<close>

definition least_squares :: "real list \<Rightarrow> real \<Rightarrow> real \<Rightarrow> bool" where
  "least_squares seg a c = (\<forall>a' c'. ssr seg a c \<le> ssr seg a' c')"

text \<open>The closed form of simple linear regression over the indices \<open>0..n-1\<close>.\<close>

definition sx :: "nat \<Rightarrow> real" where
  "sx n = (\<Sum>k<n. real k)"

definition sxx :: "nat \<Rightarrow> real" where
  "sxx n = (\<Sum>k<n. real k * real k)"

definition sy :: "real list \<Rightarrow> real" where
  "sy seg = (\<Sum>k<length seg. seg ! k)"

definition sxy :: "real list \<Rightarrow> real" where
  "sxy seg = (\<Sum>k<length seg. real k * seg ! k)"

definition ols_slope :: "real list \<Rightarrow> real" where
  "ols_slope seg =
     (real (length seg) * sxy seg - sx (length seg) * sy seg) /
     (real (length seg) * sxx (length seg) - sx (length seg) * sx (length seg))"

definition ols_intercept :: "real list \<Rightarrow> real" where
  "ols_intercept seg = (sy seg - ols_slope seg * sx (length seg)) / real (length seg)"

text \<open>The total of the squared residuals over the complete boxes.\<close>

definition total_ssr :: "real list \<Rightarrow> nat \<Rightarrow> real" where
  "total_ssr ys n =
     (\<Sum>b<length ys div n. ssr (box ys n b) (ols_slope (box ys n b)) (ols_intercept (box ys n b)))"

section \<open>Short inputs\<close>

text \<open>
  C9: for every input interval sequence with fewer than 3 samples, the Validator/Corrector
  returns the input unchanged, whatever the values are.
\<close>

theorem preprocessRR_short:
  "length rrIntervals < 3 \<Longrightarrow> preprocessRR rrIntervals = rrIntervals"
  by (simp add: preprocessRR_def)

theorem preprocessRR_short_witness:
  "length [Fin 50, NaN] < 3 \<and> preprocessRR [Fin 50, NaN] = [Fin 50, NaN]"
  using preprocessRR_short [of "[Fin 50, NaN]"] by simp

section \<open>The validation rule\<close>

lemma isValid_Fin: "isValid (map Fin fs) (Fin v) = acceptable fs v"
proof (cases "fs = []")
  case True
  then show ?thesis
    by (auto simp: isValid_def acceptable_def MIN_RR_def MAX_RR_def num_gt_def)
next
  case False
  then have l: "last (map Fin fs) = Fin (last fs)" by (simp add: last_map)
  show ?thesis using False
    by (auto simp: isValid_def acceptable_def MIN_RR_def MAX_RR_def num_gt_def num_sub_def l Let_def)
qed



lemma filtered_at_Suc:
  "filtered_at rr (Suc i) = preprocess_step rr i (filtered_at rr i)"
  by (simp add: filtered_at_def)

lemma filtered_at_0: "filtered_at rr 0 = []"
  by (simp add: filtered_at_def)

lemma preprocess_step_pos:
  assumes "\<forall>v\<in>set vs. 0 \<le> v" and "i < length vs" and "\<forall>p\<in>set fs. 0 < p"
  shows "\<exists>fs'. preprocess_step (map Fin vs) i (map Fin fs) = map Fin fs' \<and> (\<forall>p\<in>set fs'. 0 < p)"
proof (cases "isValid (map Fin fs) (Fin (vs ! i))")
  case True
  from True isValid_Fin have "acceptable fs (vs ! i)" by simp
  then have "0 < vs ! i" by (simp add: acceptable_def)
  with True assms show ?thesis
    by (intro exI [of _ "fs @ [vs ! i]"]) (simp add: preprocess_step_def)
next
  case inv: False
  show ?thesis
  proof (cases "fs = []")
    case True
    with inv assms show ?thesis
      by (intro exI [of _ "[]"]) (simp add: preprocess_step_def interpolate_def)
  next
    case ne: False
    then have p: "0 < last fs" using assms(3) by simp
    from ne have l: "last (map Fin fs) = Fin (last fs)" by (simp add: last_map)
    show ?thesis
    proof (cases "Suc i < length vs \<and> vs ! Suc i \<noteq> 0")
      case True
      then have "0 < vs ! Suc i" using assms(1) by (metis nth_mem order_le_less)
      with p have m: "0 < last fs + vs ! Suc i" "last fs \<noteq> 0" by simp_all
      have "preprocess_step (map Fin vs) i (map Fin fs) = map Fin (fs @ [(last fs + vs ! Suc i) / 2])"
        using True inv ne m(2) by (simp add: preprocess_step_def interpolate_def l)
      moreover have "\<forall>p\<in>set (fs @ [(last fs + vs ! Suc i) / 2]). 0 < p"
        using assms(3) m(1) by simp
      ultimately show ?thesis by blast
    next
      case False
      from p have nz: "last fs \<noteq> 0" by simp
      have "preprocess_step (map Fin vs) i (map Fin fs) = map Fin (fs @ [last fs])"
        using False inv ne nz assms(2) by (auto simp add: preprocess_step_def interpolate_def l)
      moreover have "\<forall>p\<in>set (fs @ [last fs]). 0 < p"
        using assms(3) p by simp
      ultimately show ?thesis by blast
    qed
  qed
qed

lemma filtered_at_pos:
  assumes "\<forall>v\<in>set vs. 0 \<le> v" and "i \<le> length vs"
  shows "\<exists>fs. filtered_at (map Fin vs) i = map Fin fs \<and> (\<forall>p\<in>set fs. 0 < p)"
  using assms(2)
proof (induction i)
  case 0
  show ?case by (intro exI [of _ "[]"]) (simp add: filtered_at_0)
next
  case (Suc i)
  then obtain fs where fs: "filtered_at (map Fin vs) i = map Fin fs" "\<forall>p\<in>set fs. 0 < p"
    by auto
  from Suc.prems have "i < length vs" by simp
  from preprocess_step_pos [OF assms(1) this fs(2)] fs(1) show ?case
    by (simp add: filtered_at_Suc)
qed



lemmas preprocess_defs = preprocessRR_def filtered_at_def preprocess_step_def isValid_def
  interpolate_def MIN_RR_def MAX_RR_def num_gt_def num_sub_def Let_def




lemma filtered_at_take:
  assumes "\<forall>v\<in>set vs. 300 \<le> v \<and> v \<le> 1300"
    and "\<forall>i. Suc i < length vs \<longrightarrow> \<bar>vs ! Suc i - vs ! i\<bar> / \<bar>vs ! i\<bar> \<le> 3 / 10"
    and "i \<le> length vs"
  shows "filtered_at (map Fin vs) i = map Fin (take i vs)"
  using assms(3)
proof (induction i)
  case 0
  show ?case by (simp add: filtered_at_0)
next
  case (Suc i)
  then have i: "i < length vs" and ih: "filtered_at (map Fin vs) i = map Fin (take i vs)"
    by simp_all
  have pos: "take i vs \<noteq> [] \<Longrightarrow> 0 < last (take i vs)"
  proof -
    assume ne: "take i vs \<noteq> []"
    then have "last (take i vs) \<in> set vs" by (meson in_set_takeD last_in_set)
    with assms(1) show ?thesis by fastforce
  qed
  have r: "300 \<le> vs ! i \<and> vs ! i \<le> 1300" using assms(1) i by simp
  have "acceptable (take i vs) (vs ! i)"
  proof (cases i)
    case 0
    with r show ?thesis by (simp add: acceptable_def)
  next
    case (Suc j)
    with i have "last (take i vs) = vs ! j"
      by (simp add: take_Suc_conv_app_nth)
    moreover from Suc i assms(2) have "\<bar>vs ! i - vs ! j\<bar> / \<bar>vs ! j\<bar> \<le> 3 / 10" by simp
    moreover from Suc i have "take i vs \<noteq> []" by auto
    ultimately show ?thesis using r pos by (simp add: acceptable_def)
  qed
  with isValid_Fin have "isValid (map Fin (take i vs)) (Fin (vs ! i))" by simp
  with i show ?case
    by (simp add: filtered_at_Suc ih preprocess_step_def take_Suc_conv_app_nth)
qed

lemma preprocessRR_constant:
  assumes "300 \<le> c" and "c \<le> 1300"
  shows "preprocessRR (replicate k (Fin c)) = replicate k (Fin c)"
proof -
  have "filtered_at (map Fin (replicate k c)) (length (replicate k c))
      = map Fin (take (length (replicate k c)) (replicate k c))"
    using assms by (intro filtered_at_take) simp_all
  then show ?thesis by (simp add: preprocessRR_def)
qed

text \<open>
  C10: on a sequence in which every sample lies within \<open>[300, 1300]\<close> and every sample
  after the first is within a relative difference of \<open>0.30\<close> of its predecessor,
  \<^verbatim>\<open>preprocessRR\<close> returns the input unchanged, whatever its length.
\<close>

theorem preprocessRR_valid_identity:
  assumes "\<forall>v\<in>set vs. 300 \<le> v \<and> v \<le> 1300"
    and "\<forall>i. Suc i < length vs \<longrightarrow> \<bar>vs ! Suc i - vs ! i\<bar> / \<bar>vs ! i\<bar> \<le> 3 / 10"
  shows "preprocessRR (map Fin vs) = map Fin vs"
  using filtered_at_take [OF assms, of "length vs"] by (simp add: preprocessRR_def)

theorem preprocessRR_valid_identity_witness:
  "preprocessRR (map Fin [800, 820, 790]) = map Fin [800, 820, 790]"
proof -
  have h1: "\<forall>v\<in>set [800, 820, 790 :: real]. 300 \<le> v \<and> v \<le> 1300" by simp
  have h2: "\<forall>i. Suc i < length [800, 820, 790 :: real] \<longrightarrow>
      \<bar>[800, 820, 790] ! Suc i - [800, 820, 790] ! i\<bar> / \<bar>[800, 820, 790 :: real] ! i\<bar> \<le> 3 / 10"
    by (simp add: less_Suc_eq nth_Cons')
  from preprocessRR_valid_identity [OF h1 h2] show ?thesis .
qed

text \<open>
  The correction of an invalid sample when every raw sample is positive: nothing is emitted
  before the first acceptance, the mean with the following raw sample otherwise, and the
  previous value at the end of the sequence.
\<close>

lemma correction_rule_positive:
  assumes "\<forall>v\<in>set vs. 0 < v" and "i < length vs"
  shows "\<exists>fs. filtered_at (map Fin vs) i = map Fin fs
           \<and> (\<not> acceptable fs (vs ! i) \<longrightarrow>
                filtered_at (map Fin vs) (Suc i) =
                  (if fs = [] then []
                   else if Suc i < length vs
                     then map Fin (fs @ [(last fs + vs ! Suc i) / 2])
                     else map Fin (fs @ [last fs])))"
proof -
  from assms(1) have nn: "\<forall>v\<in>set vs. 0 \<le> v" by (simp add: order_less_imp_le)
  from filtered_at_pos [OF nn, of i] assms(2)
  obtain fs where fs: "filtered_at (map Fin vs) i = map Fin fs" "\<forall>p\<in>set fs. 0 < p"
    by auto
  have p: "fs \<noteq> [] \<Longrightarrow> 0 < last fs" using fs(2) by simp
  have v: "isValid (map Fin fs) (Fin (vs ! i)) = acceptable fs (vs ! i)"
    by (rule isValid_Fin)
  have l: "fs \<noteq> [] \<Longrightarrow> last (map Fin fs) = Fin (last fs)" by (simp add: last_map)
  have nz: "fs \<noteq> [] \<Longrightarrow> last fs \<noteq> 0" using p by auto
  have nx: "Suc i < length vs \<Longrightarrow> vs ! Suc i \<noteq> 0"
    using assms(1) by (metis less_irrefl nth_mem) 
  have "\<not> acceptable fs (vs ! i) \<longrightarrow>
      filtered_at (map Fin vs) (Suc i) =
        (if fs = [] then []
         else if Suc i < length vs
           then map Fin (fs @ [(last fs + vs ! Suc i) / 2])
           else map Fin (fs @ [last fs]))"
    using assms(2) v l nz nx
    by (simp add: filtered_at_Suc fs(1) preprocess_step_def interpolate_def)
  with fs(1) show ?thesis by blast
qed

text \<open>
  C2: an invalid sample with an accepted predecessor and a following raw sample is replaced by
  their mean. The branch tests \<^verbatim>\<open>prev && next\<close>, and a following raw sample of \<open>0\<close> is
  falsy: on \<open>[800, 50, 0]\<close> the sample \<open>50\<close> is replaced by the previous value \<open>800\<close>,
  not by the mean \<open>400\<close>.
\<close>

theorem preprocessRR_zero_next:
  "preprocessRR [Fin 800, Fin 50, Fin 0] = [Fin 800, Fin 800, Fin 800]"
  by (simp add: preprocess_defs)

text \<open>The range check rejects every finite value that is not positive and both infinities.\<close>

lemma malformed_invalid:
  "v \<le> 0 \<Longrightarrow> \<not> isValid filtered (Fin v)"
  "\<not> isValid filtered PInf"
  "\<not> isValid filtered NInf"
  by (simp_all add: isValid_def MIN_RR_def MAX_RR_def num_gt_def)

text \<open>
  C6: a value that is not finite is never accepted as it is. Both range comparisons and the
  jump comparison are false for NaN, so the NaN of \<open>[800, NaN, 810]\<close> is accepted and
  returned in the cleaned sequence.
\<close>

theorem preprocessRR_accepts_NaN:
  "preprocessRR [Fin 800, NaN, Fin 810] = [Fin 800, NaN, Fin 810]"
  by (simp add: preprocess_defs)

section \<open>Least squares over the indices of a box\<close>

lemma sx_closed: "sx n = real n * (real n - 1) / 2"
  by (induction n) (simp_all add: sx_def field_simps)

lemma sxx_closed: "sxx n = (real n - 1) * real n * (2 * real n - 1) / 6"
  by (induction n) (simp_all add: sxx_def field_simps)

lemma regression_denominator:
  "real n * sxx n - sx n * sx n = (real n)\<^sup>2 * ((real n)\<^sup>2 - 1) / 12"
  by (simp add: sx_closed sxx_closed power2_eq_square field_simps)

lemma regression_denominator_pos:
  assumes "2 \<le> n"
  shows "0 < real n * sxx n - sx n * sx n"
proof -
  from assms have "2 \<le> real n" by simp
  then have "1 < (real n)\<^sup>2" by (smt (verit) one_less_power pos2 power_one_right)
  moreover from assms have "0 < (real n)\<^sup>2" by simp
  ultimately show ?thesis by (simp add: regression_denominator)
qed

lemma residual_sum_zero:
  assumes "2 \<le> length seg"
  shows "(\<Sum>k<length seg. seg ! k - (ols_slope seg * real k + ols_intercept seg)) = 0"
proof -
  let ?n = "length seg"
  from assms have n: "real ?n \<noteq> 0" by auto
  have "(\<Sum>k<?n. seg ! k - (ols_slope seg * real k + ols_intercept seg))
      = sy seg - ols_slope seg * sx ?n - real ?n * ols_intercept seg"
    by (simp add: sum_subtractf sum.distrib sy_def sx_def sum_distrib_left)
  also have "\<dots> = 0" using n by (simp add: ols_intercept_def)
  finally show ?thesis .
qed

lemma residual_moment_zero:
  assumes "2 \<le> length seg"
  shows "(\<Sum>k<length seg. real k * (seg ! k - (ols_slope seg * real k + ols_intercept seg))) = 0"
proof -
  let ?n = "length seg"
  let ?D = "real ?n * sxx ?n - sx ?n * sx ?n"
  from assms have n: "real ?n \<noteq> 0" by auto
  from regression_denominator_pos [OF assms] have D: "?D \<noteq> 0" by simp
  have "(\<Sum>k<?n. real k * (seg ! k - (ols_slope seg * real k + ols_intercept seg)))
      = (\<Sum>k<?n. real k * seg ! k - ols_slope seg * (real k * real k) - ols_intercept seg * real k)"
    by (rule sum.cong) (simp_all add: algebra_simps)
  also have "\<dots> = sxy seg - ols_slope seg * sxx ?n - ols_intercept seg * sx ?n"
    by (simp add: sum_subtractf sxy_def sxx_def sx_def sum_distrib_left)
  finally have e: "(\<Sum>k<?n. real k * (seg ! k - (ols_slope seg * real k + ols_intercept seg)))
      = sxy seg - ols_slope seg * sxx ?n - ols_intercept seg * sx ?n" .
  have ni: "real ?n * ols_intercept seg = sy seg - ols_slope seg * sx ?n"
    using n by (simp add: ols_intercept_def)
  have sD: "ols_slope seg * ?D = real ?n * sxy seg - sx ?n * sy seg"
    using D by (simp add: ols_slope_def)
  have "real ?n * (sxy seg - ols_slope seg * sxx ?n - ols_intercept seg * sx ?n)
      = real ?n * sxy seg - ols_slope seg * (real ?n * sxx ?n) - (real ?n * ols_intercept seg) * sx ?n"
    by (simp add: algebra_simps)
  also have "\<dots> = (real ?n * sxy seg - sx ?n * sy seg) - ols_slope seg * ?D"
    unfolding ni by (simp add: algebra_simps)
  also have "\<dots> = 0" unfolding sD by simp
  finally have "sxy seg - ols_slope seg * sxx ?n - ols_intercept seg * sx ?n = 0"
    using n by simp
  with e show ?thesis by simp
qed

lemma ols_least_squares:
  assumes "2 \<le> length seg"
  shows "least_squares seg (ols_slope seg) (ols_intercept seg)"
  unfolding least_squares_def
proof (intro allI)
  fix a c
  let ?n = "length seg"
  let ?r = "\<lambda>k. seg ! k - (ols_slope seg * real k + ols_intercept seg)"
  let ?d = "\<lambda>k. (ols_slope seg - a) * real k + (ols_intercept seg - c)"
  have "ssr seg a c = (\<Sum>k<?n. (?r k + ?d k)\<^sup>2)"
    unfolding ssr_def by (rule sum.cong) (simp_all add: algebra_simps)
  also have "\<dots> = (\<Sum>k<?n. (?r k)\<^sup>2 + (?d k)\<^sup>2
      + 2 * (ols_slope seg - a) * (real k * ?r k) + 2 * (ols_intercept seg - c) * ?r k)"
    by (rule sum.cong) (simp_all add: power2_eq_square algebra_simps)
  also have "\<dots> = (\<Sum>k<?n. (?r k)\<^sup>2) + (\<Sum>k<?n. (?d k)\<^sup>2)
      + 2 * (ols_slope seg - a) * (\<Sum>k<?n. real k * ?r k)
      + 2 * (ols_intercept seg - c) * (\<Sum>k<?n. ?r k)"
    by (simp add: sum.distrib sum_distrib_left)
  also have "\<dots> = ssr seg (ols_slope seg) (ols_intercept seg) + (\<Sum>k<?n. (?d k)\<^sup>2)"
    by (simp add: residual_sum_zero [OF assms] residual_moment_zero [OF assms] ssr_def)
  finally have "ssr seg a c = ssr seg (ols_slope seg) (ols_intercept seg) + (\<Sum>k<?n. (?d k)\<^sup>2)" .
  moreover have "0 \<le> (\<Sum>k<?n. (?d k)\<^sup>2)" by (rule sum_nonneg) simp
  ultimately show "ssr seg (ols_slope seg) (ols_intercept seg) \<le> ssr seg a c" by linarith
qed


lemma num_sub_Fin: "num_sub (Fin a) (Fin b) = Fin (a - b)"
  by (simp add: num_sub_def)

lemma nth_num_Fin: "k < length xs \<Longrightarrow> nth_num (map Fin xs) k = Fin (xs ! k)"
  by (simp add: nth_num_def)

lemma regression_fold:
  assumes "m \<le> length xs" and "length ys = length xs"
  shows "fold (regression_step (map Fin xs) (map Fin ys)) [0..<m]
           \<lparr> sumX = Fin 0, sumY = Fin 0, sumXY = Fin 0, sumXX = Fin 0 \<rparr>
         = \<lparr> sumX = Fin (\<Sum>k<m. xs ! k), sumY = Fin (\<Sum>k<m. ys ! k),
             sumXY = Fin (\<Sum>k<m. xs ! k * ys ! k), sumXX = Fin (\<Sum>k<m. xs ! k * xs ! k) \<rparr>"
  using assms(1)
proof (induction m)
  case 0
  show ?case by simp
next
  case (Suc m)
  then have m: "m < length xs" "m < length ys" using assms(2) by simp_all
  from Suc show ?case
    by (simp add: regression_step_def nth_num_Fin m)
qed

lemma linearRegression_box:
  assumes "2 \<le> length seg"
  shows "linearRegression (map (\<lambda>k. Fin (real k)) [0..<length seg]) (map Fin seg)
         = \<lparr> slope = Fin (ols_slope seg), intercept = Fin (ols_intercept seg) \<rparr>"
proof -
  let ?n = "length seg"
  let ?xs = "map real [0..<?n]"
  have f: "fold (regression_step (map (\<lambda>k. Fin (real k)) [0..<?n]) (map Fin seg)) [0..<?n]
           \<lparr> sumX = Fin 0, sumY = Fin 0, sumXY = Fin 0, sumXX = Fin 0 \<rparr>
         = \<lparr> sumX = Fin (sx ?n), sumY = Fin (sy seg),
             sumXY = Fin (sxy seg), sumXX = Fin (sxx ?n) \<rparr>"
    using regression_fold [of ?n ?xs seg]
    by (simp add: sx_def sy_def sxy_def sxx_def comp_def)
  from regression_denominator_pos [OF assms]
  have D: "real ?n * sxx ?n - sx ?n * sx ?n \<noteq> 0" by simp
  from assms have n: "real ?n \<noteq> 0" by auto
  show ?thesis
    unfolding linearRegression_def
    using D n by (simp add: f Let_def num_sub_Fin ols_slope_def ols_intercept_def)
qed

lemma residual_fold:
  assumes "m \<le> length seg"
  shows "fold (residual_step \<lparr> slope = Fin a, intercept = Fin c \<rparr> (map Fin seg)) [0..<m] (Fin t)
         = Fin (t + (\<Sum>k<m. (seg ! k - (a * real k + c))\<^sup>2))"
  using assms
proof (induction m)
  case 0
  show ?case by simp
next
  case (Suc m)
  then have "m < length seg" by simp
  with Suc show ?case
    by (simp add: residual_step_def nth_num_Fin num_sub_Fin power2_eq_square)
qed

lemma length_box: "Suc b * n \<le> length ys \<Longrightarrow> length (box ys n b) = n"
  by (simp add: box_def)

lemma box_step_Fin:
  assumes "2 \<le> n" and "Suc b * n \<le> length ys"
  shows "box_step (map Fin ys) n b (Fin t)
         = Fin (t + ssr (box ys n b) (ols_slope (box ys n b)) (ols_intercept (box ys n b)))"
proof -
  let ?seg = "box ys n b"
  have len: "length ?seg = n" using assms(2) by (rule length_box)
  have seg: "take n (drop (b * n) (map Fin ys)) = map Fin ?seg"
    by (simp add: box_def take_map drop_map)
  from assms(1) len have "2 \<le> length ?seg" by simp
  from linearRegression_box [OF this]
  have l: "linearRegression (map (\<lambda>k. Fin (real k)) [0..<n]) (map Fin ?seg)
         = \<lparr> slope = Fin (ols_slope ?seg), intercept = Fin (ols_intercept ?seg) \<rparr>"
    by (simp add: len)
  have "fold (residual_step \<lparr> slope = Fin (ols_slope ?seg), intercept = Fin (ols_intercept ?seg) \<rparr>
           (map Fin ?seg)) [0..<n] (Fin t)
        = Fin (t + (\<Sum>k<n. (?seg ! k - (ols_slope ?seg * real k + ols_intercept ?seg))\<^sup>2))"
    by (rule residual_fold) (simp add: len)
  then show ?thesis
    by (simp add: box_step_def Let_def seg l ssr_def len)
qed

lemma box_fold:
  assumes "2 \<le> n" and "m \<le> length ys div n"
  shows "fold (box_step (map Fin ys) n) [0..<m] (Fin 0)
         = Fin (\<Sum>b<m. ssr (box ys n b) (ols_slope (box ys n b)) (ols_intercept (box ys n b)))"
  using assms(2)
proof (induction m)
  case 0
  show ?case by simp
next
  case (Suc m)
  then have "Suc m * n \<le> (length ys div n) * n" by (meson mult_le_mono1)
  also have "\<dots> \<le> length ys" by simp
  finally have "Suc m * n \<le> length ys" .
  from box_step_Fin [OF assms(1) this] Suc show ?case by simp
qed

lemma ssr_nonneg: "0 \<le> ssr seg a c"
  unfolding ssr_def by (rule sum_nonneg) simp

lemma total_ssr_nonneg: "0 \<le> total_ssr ys n"
  unfolding total_ssr_def by (rule sum_nonneg) (rule ssr_nonneg)

lemma calculateF_n_total:
  assumes "2 \<le> n"
  shows "calculateF_n (map Fin ys) n
         = Some (num_sqrt (num_div (Fin (total_ssr ys n)) (Fin (real (length ys div n * n)))))"
  using assms box_fold [OF assms, of "length ys div n" ys]
  by (simp add: calculateF_n_def Let_def total_ssr_def)

lemma calculateF_n_Fin:
  assumes "2 \<le> n" and "n \<le> length ys"
  shows "calculateF_n (map Fin ys) n
         = Some (Fin (sqrt (total_ssr ys n / real (length ys div n * n))))"
proof -
  from assms have nb: "0 < length ys div n" by (simp add: div_greater_zero_iff)
  from assms(1) have n: "0 < n" by simp
  from nb n have pos: "0 < real (length ys div n * n)" by simp
  with total_ssr_nonneg [of ys n]
  have "\<not> total_ssr ys n / real (length ys div n * n) < 0"
    by (simp add: not_less)
  with nb n show ?thesis
    unfolding calculateF_n_total [OF assms(1)] by simp
qed

section \<open>The fluctuation of a series\<close>

lemma box_take:
  assumes "b < length ys div n"
  shows "box (take (length ys div n * n) ys) n b = box ys n b"
proof -
  from assms have "Suc b \<le> length ys div n" by simp
  then have "Suc b * n \<le> length ys div n * n" by (rule mult_le_mono1)
  then have "n \<le> length ys div n * n - b * n" by simp
  then show ?thesis
    by (simp add: box_def drop_take min_def)
qed

lemma total_ssr_take:
  "total_ssr (take (length ys div n * n) ys) n = total_ssr ys n"
proof (cases "n = 0")
  case True
  then show ?thesis by (simp add: total_ssr_def)
next
  case False
  have "length (take (length ys div n * n) ys) div n = length ys div n"
    using False by (simp add: min_def)
  then show ?thesis
    unfolding total_ssr_def by (simp add: box_take)
qed

lemma total_ssr_example: "total_ssr [0, 1, 0, 2, 2, 5, 9] 3 = 13 / 6"
  by (simp add: total_ssr_def box_def ssr_def ols_slope_def ols_intercept_def sx_def sxx_def
      sy_def sxy_def lessThan_nat_numeral lessThan_Suc power2_eq_square field_simps)

text \<open>
  C3: for a series with at least one complete box of size \<open>n\<close>, the fluctuation estimator
  returns \<open>sqrt (S / (numBoxes * n))\<close> with \<open>numBoxes = length div n\<close>, where \<open>S\<close> adds,
  over the \<open>numBoxes\<close> consecutive boxes of exactly \<open>n\<close> samples, the squared residuals
  from the least-squares line of the box against the indices \<open>0..n-1\<close>; the samples after
  the last complete box do not change the result. Box sizes are at least 2 (the service
  uses 4 to 16): a single point has no regression line.
\<close>

theorem fluctuation_formula:
  assumes "2 \<le> n" and "n \<le> length ys"
  shows "calculateF_n (map Fin ys) n
           = Some (Fin (sqrt (total_ssr ys n / real (length ys div n * n))))
       \<and> (\<forall>b<length ys div n.
             length (box ys n b) = n
           \<and> least_squares (box ys n b) (ols_slope (box ys n b)) (ols_intercept (box ys n b)))
       \<and> calculateF_n (map Fin (take (length ys div n * n) ys)) n = calculateF_n (map Fin ys) n"
proof (intro conjI allI impI)
  show "calculateF_n (map Fin ys) n
           = Some (Fin (sqrt (total_ssr ys n / real (length ys div n * n))))"
    using assms by (rule calculateF_n_Fin)
next
  fix b assume b: "b < length ys div n"
  then have "Suc b \<le> length ys div n" by simp
  then have "Suc b * n \<le> length ys div n * n" by (rule mult_le_mono1)
  also have "\<dots> \<le> length ys" by simp
  finally show len: "length (box ys n b) = n" by (rule length_box)
  with assms(1) have "2 \<le> length (box ys n b)" by simp
  then show "least_squares (box ys n b) (ols_slope (box ys n b)) (ols_intercept (box ys n b))"
    by (rule ols_least_squares)
next
  have "length (take (length ys div n * n) ys) div n = length ys div n"
    using assms(1) by (simp add: min_def)
  then show "calculateF_n (map Fin (take (length ys div n * n) ys)) n = calculateF_n (map Fin ys) n"
    by (simp add: calculateF_n_total [OF assms(1)] total_ssr_take)
qed


theorem fluctuation_formula_witness:
  "calculateF_n (map Fin [0, 1, 0, 2, 2, 5, 9]) 3 = Some (Fin (sqrt (13 / 36)))
     \<and> length (box [0, 1, 0, 2, 2, 5, 9 :: real] 3 1) = 3
     \<and> least_squares (box [0, 1, 0, 2, 2, 5, 9] 3 1)
          (ols_slope (box [0, 1, 0, 2, 2, 5, 9] 3 1)) (ols_intercept (box [0, 1, 0, 2, 2, 5, 9] 3 1))
     \<and> calculateF_n (map Fin [0, 1, 0, 2, 2, 5]) 3
          = calculateF_n (map Fin [0, 1, 0, 2, 2, 5, 9]) 3"
proof -
  have h1: "2 \<le> (3::nat)" by simp
  have h2: "3 \<le> length [0, 1, 0, 2, 2, 5, 9 :: real]" by simp
  have h3: "(1::nat) < length [0, 1, 0, 2, 2, 5, 9 :: real] div 3" by simp
  from fluctuation_formula [OF h1 h2] h3 show ?thesis
    by (simp add: total_ssr_example)
qed

section \<open>Constant offsets\<close>














subsection \<open>Offsets in binary64\<close>





















section \<open>The integrator and the sample threshold\<close>

lemma foldl_num_add_Fin: "foldl num_add (Fin a) (map Fin xs) = Fin (a + sum_list xs)"
  by (induction xs arbitrary: a) (simp_all add: add.assoc)

lemma integrate_fold:
  "fold (integrate_step (Fin m)) (map Fin xs) (Fin 0, [])
   = (Fin (\<Sum>i<length xs. xs ! i - m),
      map (\<lambda>k. Fin (\<Sum>i\<le>k. xs ! i - m)) [0..<length xs])"
proof (induction xs rule: rev_induct)
  case Nil
  show ?case by simp
next
  case (snoc x xs)
  have s: "(\<Sum>i<length xs. (xs @ [x]) ! i - m) = (\<Sum>i<length xs. xs ! i - m)"
    by (rule sum.cong) (simp_all add: nth_append)
  have t: "(\<Sum>i\<le>length xs. (xs @ [x]) ! i - m) = (\<Sum>i<length xs. xs ! i - m) + (x - m)"
    by (simp add: s flip: lessThan_Suc_atMost)
  have u: "map (\<lambda>k. Fin (\<Sum>i\<le>k. (xs @ [x]) ! i - m)) [0..<length xs]
         = map (\<lambda>k. Fin (\<Sum>i\<le>k. xs ! i - m)) [0..<length xs]"
  proof (rule map_cong [OF refl])
    fix k assume "k \<in> set [0..<length xs]"
    then have k: "k < length xs" by simp
    have "(\<Sum>i\<le>k. (xs @ [x]) ! i - m) = (\<Sum>i\<le>k. xs ! i - m)"
      by (rule sum.cong) (insert k, simp_all add: nth_append)
    then show "Fin (\<Sum>i\<le>k. (xs @ [x]) ! i - m) = Fin (\<Sum>i\<le>k. xs ! i - m)" by simp
  qed
  have "fold (integrate_step (Fin m)) (map Fin (xs @ [x])) (Fin 0, [])
      = integrate_step (Fin m) (Fin x) (fold (integrate_step (Fin m)) (map Fin xs) (Fin 0, []))"
    by simp
  also have "\<dots> = integrate_step (Fin m) (Fin x)
      (Fin (\<Sum>i<length xs. xs ! i - m), map (\<lambda>k. Fin (\<Sum>i\<le>k. xs ! i - m)) [0..<length xs])"
    by (simp only: snoc.IH)
  also have "\<dots> = (Fin (\<Sum>i<length (xs @ [x]). (xs @ [x]) ! i - m),
      map (\<lambda>k. Fin (\<Sum>i\<le>k. (xs @ [x]) ! i - m)) [0..<length (xs @ [x])])"
    by (simp add: integrate_step_def num_sub_Fin s t u Let_def)
  finally show ?case .
qed

lemma integratedSeries_Fin:
  assumes "xs \<noteq> []"
  shows "integratedSeries (map Fin xs)
         = map (\<lambda>k. Fin (\<Sum>i\<le>k. xs ! i - sum_list xs / real (length xs))) [0..<length xs]"
  using assms
  by (simp add: integratedSeries_def foldl_num_add_Fin integrate_fold)

text \<open>
  C7: for a non-empty cleaned sequence the integrated series has the same length, its element
  \<open>k\<close> is the sum of \<open>element - mean\<close> over the elements \<open>0..k\<close>, and its first element
  is \<open>input[0] - mean\<close>.
\<close>

theorem integrator_cumulative:
  assumes "xs \<noteq> []"
  shows "length (integratedSeries (map Fin xs)) = length xs
       \<and> (\<forall>k<length xs. integratedSeries (map Fin xs) ! k
             = Fin (\<Sum>i\<le>k. xs ! i - sum_list xs / real (length xs)))
       \<and> integratedSeries (map Fin xs) ! 0 = Fin (xs ! 0 - sum_list xs / real (length xs))"
  using assms by (simp add: integratedSeries_Fin)

theorem integrator_cumulative_witness:
  "[800, 820, 780 :: real] \<noteq> []
     \<and> length (integratedSeries (map Fin [800, 820, 780])) = 3
     \<and> (1::nat) < length [800, 820, 780 :: real]
     \<and> integratedSeries (map Fin [800, 820, 780]) ! 1 = Fin 20
     \<and> integratedSeries (map Fin [800, 820, 780]) ! 0 = Fin 0"
proof -
  have h1: "[800, 820, 780 :: real] \<noteq> []" by simp
  have h2: "(1::nat) < length [800, 820, 780 :: real]" by simp
  from integrator_cumulative [OF h1] h2 show ?thesis
    by (simp add: atMost_Suc)
qed

lemma log_pairs_returns:
  assumes "\<forall>n\<in>set ns. 0 < n"
  shows "\<exists>r. log_pairs series ns acc = Some r"
  using assms
proof (induction ns arbitrary: acc)
  case Nil
  show ?case by simp
next
  case (Cons n ns)
  then have "0 < n" and "\<forall>n\<in>set ns. 0 < n" by simp_all
  then show ?case
    using Cons.IH by (simp add: calculateF_n_def Let_def)
qed

lemma boxSizes_pos: "\<forall>n\<in>set boxSizes. 0 < n"
  by (simp add: boxSizes_def)

text \<open>
  The function returns \<^verbatim>\<open>null\<close> exactly when the cleaned sequence has fewer than 50
  samples; otherwise the loop over the box sizes ends and a number is returned.
\<close>

lemma calculateDfaAlpha1_null_iff:
  "(calculateDfaAlpha1 rrIntervals = Some Null \<longleftrightarrow> length (preprocessRR rrIntervals) < 50)
   \<and> (\<not> length (preprocessRR rrIntervals) < 50 \<longleftrightarrow>
        (\<exists>a. calculateDfaAlpha1 rrIntervals = Some (Alpha a)))"
proof -
  obtain r where "log_pairs (integratedSeries (preprocessRR rrIntervals)) boxSizes ([], []) = Some r"
    using log_pairs_returns [OF boxSizes_pos] by blast
  then show ?thesis
    by (cases r) (simp add: calculateDfaAlpha1_def Let_def)
qed

lemma calculateDfaAlpha1_49:
  "calculateDfaAlpha1 (replicate 49 (Fin 1000)) = Some Null"
  using calculateDfaAlpha1_null_iff [of "replicate 49 (Fin 1000)"]
  by (simp add: preprocessRR_constant)

section \<open>Constant interval sequences\<close>

lemma integratedSeries_constant:
  assumes "0 < k"
  shows "integratedSeries (replicate k (Fin c)) = replicate k (Fin 0)"
proof -
  have m: "sum_list (replicate k c) / real k = c"
    using assms by (simp add: sum_list_replicate)
  have "map (\<lambda>j. Fin (\<Sum>i\<le>j. replicate k c ! i - sum_list (replicate k c) / real k)) [0..<k]
      = map (\<lambda>j. Fin 0) [0..<k]"
  proof (rule map_cong [OF refl])
    fix j assume "j \<in> set [0..<k]"
    then have "\<And>i. i \<le> j \<Longrightarrow> replicate k c ! i = c" by simp
    then have "(\<Sum>i\<le>j. replicate k c ! i - sum_list (replicate k c) / real k) = 0"
      unfolding m by simp
    then show "Fin (\<Sum>i\<le>j. replicate k c ! i - sum_list (replicate k c) / real k) = Fin 0"
      by simp
  qed
  also have "\<dots> = replicate k (Fin 0)"
    by (simp add: map_replicate_const)
  finally have "integratedSeries (map Fin (replicate k c)) = replicate k (Fin 0)"
    using assms integratedSeries_Fin [of "replicate k c"] by simp
  then show ?thesis by simp
qed

lemma ssr_zero:
  assumes "\<forall>y\<in>set seg. y = 0"
  shows "ssr seg (ols_slope seg) (ols_intercept seg) = 0"
proof -
  from assms have z: "\<And>k. k < length seg \<Longrightarrow> seg ! k = 0" by simp
  then have "sy seg = 0" and "sxy seg = 0" by (simp_all add: sy_def sxy_def)
  then have "ols_slope seg = 0" and "ols_intercept seg = 0"
    by (simp_all add: ols_slope_def ols_intercept_def)
  with z show ?thesis by (simp add: ssr_def)
qed

lemma total_ssr_zero: "total_ssr (replicate k 0) n = 0"
proof -
  have "\<And>b. \<forall>y\<in>set (box (replicate k 0) n b). y = 0"
    unfolding box_def by (auto dest!: in_set_takeD in_set_dropD)
  then show ?thesis by (simp add: total_ssr_def ssr_zero)
qed

lemma calculateF_n_zero:
  assumes "2 \<le> n" and "n \<le> k"
  shows "calculateF_n (replicate k (Fin 0)) n = Some (Fin 0)"
  using calculateF_n_Fin [of n "replicate k 0"] assms by (simp add: total_ssr_zero)

lemma log_pairs_zero:
  assumes "\<forall>n\<in>set ns. 2 \<le> n \<and> n \<le> k"
  shows "log_pairs (replicate k (Fin 0)) ns acc = Some acc"
  using assms
  by (induction ns) (simp_all add: calculateF_n_zero num_gt_def)

lemma linearRegression_empty: "slope (linearRegression [] []) = NaN"
  by (simp add: linearRegression_def num_sub_def)



text \<open>
  C5: with fewer than 2 recorded pairs the estimator returns the insufficient-data result
  instead of dividing by zero. On 50 equal samples the integrated series is zero, every
  \<open>F(n)\<close> is \<open>0\<close> and no pair is recorded; the final regression then divides \<open>0\<close> by \<open>0\<close>
  and the function returns NaN as the exponent, not \<^verbatim>\<open>null\<close>.
\<close>

theorem alpha1_constant_NaN:
  "calculateDfaAlpha1 (replicate 50 (Fin 800)) = Some (Alpha NaN)"
proof -
  have "log_pairs (replicate 50 (Fin 0)) boxSizes ([], []) = Some ([], [])"
    by (rule log_pairs_zero) (simp add: boxSizes_def)
  then show ?thesis
    by (simp add: calculateDfaAlpha1_def preprocessRR_constant integratedSeries_constant
        linearRegression_empty)
qed

end
